theory Spec2Isabelle
  imports Main "HOL-Library.Sublist" "HOL-Library.Word"
begin

section \<open>Python strings and the library calls used by upload.py\<close>

text \<open>
  A Python \<open>str\<close> is a sequence of Unicode code points and \<open>bytes\<close> a sequence of
  octets. \<open>py\<close> reads an ASCII literal of the source as such a sequence.
\<close>

type_synonym codepoint = nat
type_synonym pystr = "codepoint list"
type_synonym bytes = "8 word list"

definition py :: "string \<Rightarrow> pystr" where
  "py s = map of_char s"

definition startswith :: "pystr \<Rightarrow> pystr \<Rightarrow> bool" where
  "startswith s p = prefix p s"

definition endswith :: "pystr \<Rightarrow> pystr \<Rightarrow> bool" where
  "endswith s p = suffix p s"

text \<open>
  \<open>str.isalnum\<close> and \<open>str.lower\<close> consult the Unicode character database, which is
  not part of the repository. On ASCII both are written out; beyond ASCII they are
  parameters: the classification of a code point, and the lowercase mapping of the
  code point at a position of a string (a code point may map to several, and the
  mapping of a capital sigma depends on its neighbours).
\<close>

record unicode =
  alnum_beyond_ascii :: "codepoint \<Rightarrow> bool"
  lower_beyond_ascii :: "pystr \<Rightarrow> nat \<Rightarrow> pystr"

definition isalnum :: "unicode \<Rightarrow> codepoint \<Rightarrow> bool" where
  "isalnum U c =
     (if c < 128 then (48 \<le> c \<and> c \<le> 57) \<or> (65 \<le> c \<and> c \<le> 90) \<or> (97 \<le> c \<and> c \<le> 122)
      else alnum_beyond_ascii U c)"

definition lower :: "unicode \<Rightarrow> pystr \<Rightarrow> pystr" where
  "lower U s =
     concat (map (\<lambda>i. if s ! i < 128
                        then [if 65 \<le> s ! i \<and> s ! i \<le> 90 then s ! i + 32 else s ! i]
                        else lower_beyond_ascii U s i) [0..<length s])"

text \<open>\<open>s.rstrip(chars)\<close>: every trailing code point that occurs in \<open>chars\<close> is removed.\<close>

definition rstrip :: "pystr \<Rightarrow> pystr \<Rightarrow> pystr" where
  "rstrip s chars = rev (dropWhile (\<lambda>c. c \<in> set chars) (rev s))"

text \<open>\<open>s.split(sep, 1)\<close> for a separator of one code point: at most one split.\<close>

definition split1 :: "pystr \<Rightarrow> codepoint \<Rightarrow> pystr list" where
  "split1 s sep =
     (case dropWhile (\<lambda>c. c \<noteq> sep) s of
        [] \<Rightarrow> [s]
      | _ # rest \<Rightarrow> [takeWhile (\<lambda>c. c \<noteq> sep) s, rest])"

text \<open>
  Exceptions, each carrying \<open>str(e)\<close>: the two classes the handlers of upload.py name,
  and any other \<open>Exception\<close>.
\<close>

datatype exn = BadZipFile pystr | KeyError pystr | Exception pystr

fun str :: "exn \<Rightarrow> pystr" where
  "str (BadZipFile m) = m"
| "str (KeyError m) = m"
| "str (Exception m) = m"

section \<open>The world of one request\<close>

text \<open>
  A record of a zip archive: its name, and what \<open>zf.open(info).read()\<close> gives
  (the bytes, or the exception it raises).
\<close>

record zipinfo =
  filename :: pystr
  payload :: "exn + bytes"

record put_request =
  Bucket :: pystr
  Key :: pystr
  Body :: bytes
  ContentType :: pystr

text \<open>
  The object store, as the sequence of \<open>put_object\<close> calls it has received
  (\<open>attempted\<close>) and of those it has committed (\<open>committed\<close>), oldest first.
\<close>

record r2 =
  committed :: "put_request list"
  attempted :: "put_request list"

text \<open>
  What upload.py reads from outside: the process environment, the zip parser, whether
  the constructor of the store client raises, and whether the store refuses a write
  (which may depend on everything it has received so far).
\<close>

record world =
  environ :: "pystr \<rightharpoonup> pystr"
  ZipFile :: "bytes \<Rightarrow> exn + zipinfo list"
  boto3_client :: "exn option"
  put_fault :: "r2 \<Rightarrow> put_request \<Rightarrow> exn option"

record request =
  headers :: "pystr \<rightharpoonup> pystr"
  gameZip :: "exn + bytes"

text \<open>
  The handler returns a pair of an error body and a status code, or the body of a
  completed upload; an exception no handler catches leaves it unhandled.
\<close>

record complete =
  message :: pystr
  gameName :: pystr
  gameUrl :: pystr
  status :: pystr

datatype failure = HTTP pystr nat | Unhandled exn

text \<open>\<open>os.environ[k]\<close>: a missing key raises \<open>KeyError(k)\<close>, whose text is the quoted key.\<close>

definition os_environ :: "world \<Rightarrow> pystr \<Rightarrow> exn + pystr" where
  "os_environ w k =
     (case environ w k of None \<Rightarrow> Inl (KeyError ([39] @ k @ [39])) | Some v \<Rightarrow> Inr v)"

definition put_object :: "world \<Rightarrow> r2 \<Rightarrow> put_request \<Rightarrow> exn option \<times> r2" where
  "put_object w st rq =
     (case put_fault w st rq of
        Some e \<Rightarrow> (Some e, st\<lparr>attempted := attempted st @ [rq]\<rparr>)
      | None \<Rightarrow> (None, st\<lparr>committed := committed st @ [rq], attempted := attempted st @ [rq]\<rparr>))"

section \<open>upload.py\<close>

text \<open>Line 74: the safe game name.\<close>

definition sanitize :: "unicode \<Rightarrow> pystr \<Rightarrow> pystr" where
  "sanitize U game_name =
     concat (map (\<lambda>c. if isalnum U c \<or> c \<in> set (py ''-_'') then [c] else py ''_'') game_name)"

text \<open>Line 96: the names kept for validation.\<close>

definition valid_files_of :: "pystr list \<Rightarrow> pystr list" where
  "valid_files_of all_names =
     filter (\<lambda>name. \<not> startswith name (py ''__MACOSX/'') \<and> \<not> startswith name (py ''._'')
                    \<and> \<not> endswith name (py ''/'')) all_names"

text \<open>Lines 102-105.\<close>

definition has_index :: "unicode \<Rightarrow> pystr list \<Rightarrow> bool" where
  "has_index U valid_files =
     list_ex (\<lambda>name. endswith (lower U name) (py ''index.html'')) valid_files"

text \<open>Lines 91-117: the first \<open>try\<close> block, with its handlers.\<close>

definition validate_zip :: "unicode \<Rightarrow> world \<Rightarrow> bytes \<Rightarrow> failure + pystr list" where
  "validate_zip U w zip_content =
     (case ZipFile w zip_content of
        Inl (BadZipFile m) \<Rightarrow> Inl (HTTP (py ''Invalid zip file format: '' @ m) 400)
      | Inl e \<Rightarrow> Inl (HTTP (py ''Error validating zip file: '' @ str e) 500)
      | Inr zf \<Rightarrow>
          (let all_names = map filename zf;
               valid_files = valid_files_of all_names
           in if valid_files = []
              then Inl (HTTP (py ''Invalid zip file: Contains no usable files.'') 400)
              else if \<not> has_index U valid_files
              then Inl (HTTP (py ''Invalid zip structure: index.html not found at the root level.'') 400)
              else Inr valid_files))"

text \<open>Lines 121-135: the store client.\<close>

definition new_client :: "world \<Rightarrow> exn + unit" where
  "new_client w =
     (case os_environ w (py ''R2_ACCOUNT_ID'') of Inl e \<Rightarrow> Inl e | Inr _ \<Rightarrow>
      (case os_environ w (py ''R2_ACCESS_KEY_ID'') of Inl e \<Rightarrow> Inl e | Inr _ \<Rightarrow>
       (case os_environ w (py ''R2_SECRET_ACCESS_KEY'') of Inl e \<Rightarrow> Inl e | Inr _ \<Rightarrow>
        (case boto3_client w of Some e \<Rightarrow> Inl e | None \<Rightarrow> Inr ()))))"

definition init_client :: "world \<Rightarrow> failure + unit" where
  "init_client w =
     (case new_client w of
        Inl (KeyError m) \<Rightarrow>
          Inl (HTTP (py ''Server configuration error: Missing R2 credential ('' @ m @ py '')'') 500)
      | Inl e \<Rightarrow> Inl (HTTP (py ''Failed to initialize storage client: '' @ str e) 500)
      | Inr u \<Rightarrow> Inr u)"

text \<open>Lines 142-147: the records the loop passes over. On the image's Python 3.12 and
  Linux, \<open>ZipInfo.is_dir\<close> is \<open>filename.endswith('/')\<close>.\<close>

definition is_dir :: "zipinfo \<Rightarrow> bool" where
  "is_dir info = endswith (filename info) (py ''/'')"

definition skipped :: "zipinfo \<Rightarrow> bool" where
  "skipped info =
     (startswith (filename info) (py ''__MACOSX/'') \<or> startswith (filename info) (py ''._'')
      \<or> is_dir info)"

text \<open>Lines 149-155: the entry path; \<open>None\<close> is the \<open>continue\<close> of line 155.\<close>

definition strip_root :: "pystr list \<Rightarrow> pystr \<Rightarrow> pystr option" where
  "strip_root valid_files name =
     (if 47 \<in> set name
      then (let first_part = split1 name 47 ! 0
            in if list_all (\<lambda>f. startswith f (first_part @ py ''/'')) valid_files
               then (let entry_path = split1 name 47 ! 1
                     in if entry_path = [] then None else Some entry_path)
               else Some name)
      else Some name)"

text \<open>Lines 160-172.\<close>

definition content_type_of :: "unicode \<Rightarrow> pystr \<Rightarrow> pystr" where
  "content_type_of U entry_path =
     (let lower_name = lower U entry_path
      in if endswith lower_name (py ''.html'') then py ''text/html''
         else if endswith lower_name (py ''.css'') then py ''text/css''
         else if endswith lower_name (py ''.js'') then py ''application/javascript''
         else if endswith lower_name (py ''.json'') then py ''application/json''
         else if endswith lower_name (py ''.wasm'') then py ''application/wasm''
         else if endswith lower_name (py ''.png'') then py ''image/png''
         else if endswith lower_name (py ''.jpg'') then py ''image/jpeg''
         else if endswith lower_name (py ''.jpeg'') then py ''image/jpeg''
         else if endswith lower_name (py ''.svg'') then py ''image/svg+xml''
         else if endswith lower_name (py ''.gif'') then py ''image/gif''
         else if endswith lower_name (py ''.ico'') then py ''image/x-icon''
         else py ''application/octet-stream'')"

text \<open>Lines 141-182: the loop over the records, with \<open>uploaded_count\<close> and the store.\<close>

fun upload_loop ::
  "unicode \<Rightarrow> world \<Rightarrow> pystr \<Rightarrow> pystr list \<Rightarrow> zipinfo list \<Rightarrow> nat \<Rightarrow> r2 \<Rightarrow> (exn + nat) \<times> r2" where
  "upload_loop U w safe_game_name valid_files [] uploaded_count st = (Inr uploaded_count, st)"
| "upload_loop U w safe_game_name valid_files (info # infos) uploaded_count st =
     (if skipped info then upload_loop U w safe_game_name valid_files infos uploaded_count st
      else
        (case strip_root valid_files (filename info) of
           None \<Rightarrow> upload_loop U w safe_game_name valid_files infos uploaded_count st
         | Some entry_path \<Rightarrow>
             (case payload info of
                Inl e \<Rightarrow> (Inl e, st)
              | Inr content \<Rightarrow>
                  (case os_environ w (py ''R2_BUCKET_NAME'') of
                     Inl e \<Rightarrow> (Inl e, st)
                   | Inr bucket \<Rightarrow>
                       (case put_object w st
                               \<lparr>Bucket = bucket, Key = safe_game_name @ py ''/'' @ entry_path,
                                Body = content, ContentType = content_type_of U entry_path\<rparr> of
                          (Some e, st') \<Rightarrow> (Inl e, st')
                        | (None, st') \<Rightarrow>
                            upload_loop U w safe_game_name valid_files infos
                              (uploaded_count + 1) st')))))"

text \<open>Lines 137-188: the second \<open>try\<close> block; its handler is in \<open>upload\<close>.\<close>

definition upload_files ::
  "unicode \<Rightarrow> world \<Rightarrow> pystr \<Rightarrow> pystr list \<Rightarrow> bytes \<Rightarrow> r2 \<Rightarrow> (exn + nat) \<times> r2" where
  "upload_files U w safe_game_name valid_files zip_content st =
     (case ZipFile w zip_content of
        Inl e \<Rightarrow> (Inl e, st)
      | Inr zf \<Rightarrow> upload_loop U w safe_game_name valid_files zf 0 st)"

text \<open>Line 190.\<close>

definition game_url :: "pystr \<Rightarrow> pystr \<Rightarrow> pystr" where
  "game_url base safe_game_name =
     rstrip base (py ''/'') @ py ''/'' @ safe_game_name @ py ''/index.html''"

text \<open>
  Lines 54-135: everything before the upload loop. None of it calls the store; what the
  rest of the handler uses of it is \<open>safe_game_name\<close>, \<open>valid_files\<close> and the bytes of
  the archive.
\<close>

definition validate_request ::
  "unicode \<Rightarrow> world \<Rightarrow> request \<Rightarrow> failure + pystr \<times> pystr list \<times> bytes" where
  "validate_request U w rq =
     (case headers rq (py ''x-game-name'') of
        None \<Rightarrow> Inl (HTTP (py ''Bad Request: Missing X-Game-Name header.'') 400)
      | Some game_name \<Rightarrow>
     (case headers rq (py ''x-upload-password'') of
        None \<Rightarrow> Inl (HTTP (py ''Bad Request: Missing X-Upload-Password header.'') 400)
      | Some uploadPassword \<Rightarrow>
     (let expected_password = environ w (py ''UPLOAD_PASSWORD'')
      in if expected_password = None \<or> expected_password = Some []
         then Inl (HTTP (py ''Server configuration error: Missing upload credential.'') 500)
         else if uploadPassword = [] \<or> Some uploadPassword \<noteq> expected_password
         then Inl (HTTP (py ''Unauthorized: Invalid password.'') 401)
         else if game_name = []
         then Inl (HTTP (py ''Bad Request: Missing gameName field.'') 400)
         else
     (let safe_game_name = sanitize U game_name
      in case gameZip rq of
           Inl e \<Rightarrow> Inl (HTTP (py ''Failed to read uploaded file: '' @ str e) 400)
         | Inr zip_content \<Rightarrow>
     (case validate_zip U w zip_content of
        Inl f \<Rightarrow> Inl f
      | Inr valid_files \<Rightarrow>
     (case init_client w of
        Inl f \<Rightarrow> Inl f
      | Inr _ \<Rightarrow> Inr (safe_game_name, valid_files, zip_content)))))))"

text \<open>Lines 28-198: the handler, with the store before and after.\<close>

definition upload :: "unicode \<Rightarrow> world \<Rightarrow> request \<Rightarrow> r2 \<Rightarrow> (failure + complete) \<times> r2" where
  "upload U w rq st =
     (case validate_request U w rq of
        Inl f \<Rightarrow> (Inl f, st)
      | Inr (safe_game_name, valid_files, zip_content) \<Rightarrow>
     (case upload_files U w safe_game_name valid_files zip_content st of
        (Inl e, st') \<Rightarrow> (Inl (HTTP (py ''Error processing zip file: '' @ str e) 500), st')
      | (Inr uploaded_count, st') \<Rightarrow>
     (case os_environ w (py ''PUBLIC_GAME_URL_BASE'') of
        Inl e \<Rightarrow> (Inl (Unhandled e), st')
      | Inr base \<Rightarrow>
          (Inr \<lparr>message = py ''Successfully uploaded game '' @ [39] @ safe_game_name @ [39] @ py ''.'',
                gameName = safe_game_name,
                gameUrl = game_url base safe_game_name,
                status = py ''complete''\<rparr>, st'))))"

section \<open>The specification's vocabulary\<close>

text \<open>The part of a path after its last separator, and before its first.\<close>

definition final_segment :: "pystr \<Rightarrow> pystr" where
  "final_segment p = rev (takeWhile (\<lambda>c. c \<noteq> 47) (rev p))"

definition first_segment :: "pystr \<Rightarrow> pystr" where
  "first_segment p = takeWhile (\<lambda>c. c \<noteq> 47) p"

text \<open>The extension of a path: its final segment from the last dot on, if it has a dot.\<close>

definition extension :: "pystr \<Rightarrow> pystr" where
  "extension p =
     (let seg = final_segment p
      in if 46 \<in> set seg then 46 # rev (takeWhile (\<lambda>c. c \<noteq> 46) (rev seg)) else [])"

text \<open>The table of section 4.3 of the specification.\<close>

definition content_types :: "(pystr \<times> pystr) list" where
  "content_types =
     [(py ''.html'', py ''text/html''),
      (py ''.css'', py ''text/css''),
      (py ''.js'', py ''application/javascript''),
      (py ''.json'', py ''application/json''),
      (py ''.wasm'', py ''application/wasm''),
      (py ''.png'', py ''image/png''),
      (py ''.jpg'', py ''image/jpeg''),
      (py ''.jpeg'', py ''image/jpeg''),
      (py ''.svg'', py ''image/svg+xml''),
      (py ''.gif'', py ''image/gif''),
      (py ''.ico'', py ''image/x-icon'')]"

text \<open>
  The filtering rule in the words of section 4.1 of the specification: the
  metadata-file prefix is looked for at the start of the final segment.
\<close>

definition noise_by_spec :: "pystr \<Rightarrow> bool" where
  "noise_by_spec p =
     (startswith p (py ''__MACOSX/'') \<or> startswith (final_segment p) (py ''._'')
      \<or> endswith p (py ''/''))"

text \<open>
  The entry-page rule in the words of section 4.1 of the specification: the final
  segment of the lowercased path is \<open>index.html\<close>.
\<close>

definition entry_page_by_spec :: "unicode \<Rightarrow> pystr \<Rightarrow> bool" where
  "entry_page_by_spec U p = (final_segment (lower U p) = py ''index.html'')"

text \<open>
  The records the loop does not pass over, each with its entry path, in archive order;
  and what the loop means to do with each: the exception of reading it, or the write.
\<close>

definition publishable :: "pystr list \<Rightarrow> zipinfo list \<Rightarrow> (zipinfo \<times> pystr) list" where
  "publishable valid_files zf =
     List.map_filter
       (\<lambda>info. if skipped info then None
                else map_option (Pair info) (strip_root valid_files (filename info))) zf"

definition planned ::
  "unicode \<Rightarrow> pystr \<Rightarrow> pystr \<Rightarrow> pystr list \<Rightarrow> zipinfo list \<Rightarrow> (exn + put_request) list" where
  "planned U bucket safe_game_name valid_files zf =
     map (\<lambda>(info, entry_path).
            map_sum id
              (\<lambda>content. \<lparr>Bucket = bucket, Key = safe_game_name @ py ''/'' @ entry_path,
                           Body = content, ContentType = content_type_of U entry_path\<rparr>)
              (payload info))
         (publishable valid_files zf)"

text \<open>The store after it has received and committed the writes \<open>rs\<close>.\<close>

definition wrote :: "r2 \<Rightarrow> put_request list \<Rightarrow> r2" where
  "wrote st rs = st\<lparr>committed := committed st @ rs, attempted := attempted st @ rs\<rparr>"

section \<open>Inputs for the examples\<close>

text \<open>A character database that knows nothing beyond ASCII.\<close>

definition ascii_only :: unicode where
  "ascii_only = \<lparr>alnum_beyond_ascii = (\<lambda>c. False), lower_beyond_ascii = (\<lambda>s i. [s ! i])\<rparr>"

text \<open>A character database in which U+00E9 and U+65E5 are letters.\<close>

definition two_letters :: unicode where
  "two_letters =
     \<lparr>alnum_beyond_ascii = (\<lambda>c. c = 233 \<or> c = 26085), lower_beyond_ascii = (\<lambda>s i. [s ! i])\<rparr>"

text \<open>A configured process, a parser that finds the records \<open>zf\<close>, a store that accepts
  every write unless \<open>fault\<close> says otherwise, and a request with the right password.\<close>

definition demo_environ :: "pystr \<rightharpoonup> pystr" where
  "demo_environ =
     map_of [(py ''UPLOAD_PASSWORD'', py ''pw''),
             (py ''R2_ACCOUNT_ID'', py ''acct''),
             (py ''R2_ACCESS_KEY_ID'', py ''id''),
             (py ''R2_SECRET_ACCESS_KEY'', py ''secret''),
             (py ''R2_BUCKET_NAME'', py ''games''),
             (py ''PUBLIC_GAME_URL_BASE'', py ''https://play.example//'')]"

definition demo_world :: "zipinfo list \<Rightarrow> (r2 \<Rightarrow> put_request \<Rightarrow> exn option) \<Rightarrow> world" where
  "demo_world zf fault =
     \<lparr>environ = demo_environ, ZipFile = (\<lambda>b. Inr zf), boto3_client = None, put_fault = fault\<rparr>"

definition no_fault :: "r2 \<Rightarrow> put_request \<Rightarrow> exn option" where
  "no_fault st rq = None"

definition demo_request :: "pystr \<Rightarrow> request" where
  "demo_request name =
     \<lparr>headers = map_of [(py ''x-game-name'', name), (py ''x-upload-password'', py ''pw'')],
      gameZip = Inr []\<rparr>"

definition entry :: "string \<Rightarrow> zipinfo" where
  "entry name = \<lparr>filename = py name, payload = Inr []\<rparr>"

definition put :: "string \<Rightarrow> string \<Rightarrow> put_request" where
  "put key mime = \<lparr>Bucket = py ''games'', Key = py key, Body = [], ContentType = py mime\<rparr>"

definition empty_store :: r2 where
  "empty_store = \<lparr>committed = [], attempted = []\<rparr>"

definition completed :: "string \<Rightarrow> string \<Rightarrow> complete" where
  "completed name url =
     \<lparr>message = py ''Successfully uploaded game '' @ [39] @ py name @ [39] @ py ''.'',
      gameName = py name, gameUrl = py url, status = py ''complete''\<rparr>"

text \<open>An archive of five files under one folder, with a metadata record and a directory
  marker among them; and a store that refuses the third write it receives.\<close>

definition five_files :: "zipinfo list" where
  "five_files =
     [entry ''game/index.html'', entry ''game/a.js'', entry ''__MACOSX/game/._a.js'',
      entry ''game/b.css'', entry ''game/'', entry ''game/c.png'', entry ''game/d.bin'']"

definition third_write_fails :: "r2 \<Rightarrow> put_request \<Rightarrow> exn option" where
  "third_write_fails st rq =
     (if length (attempted st) = 2 then Some (Exception (py ''503'')) else None)"

section \<open>Literals\<close>

lemma py_Nil: "py [] = []"
  by (simp add: py_def)

lemma py_Cons: "py (c # s) = of_char c # py s"
  by (simp add: py_def)

section \<open>The name sanitizer\<close>

lemma sanitize_map:
  "sanitize U n =
     map (\<lambda>c. if isalnum U c \<or> c = of_char (CHR ''-'') \<or> c = of_char (CHR ''_'')
               then c else of_char (CHR ''_'')) n"
  by (induction n) (auto simp: sanitize_def py_Cons py_Nil)

text \<open>
  C5. The sanitizer is a function of its input alone, defined on every string; it keeps
  the length, keeps a code point that is alphanumeric or \<open>-\<close> or \<open>_\<close> and puts \<open>_\<close> in the
  place of any other; applying it twice is applying it once; the empty string stays
  empty, a string of disallowed characters becomes underscores, and \<open>My Game!\<close> becomes
  \<open>My_Game_\<close>.
\<close>

theorem sanitize_spec:
  "length (sanitize U n) = length n
   \<and> (\<forall>i<length n. sanitize U n ! i =
         (if isalnum U (n ! i) \<or> n ! i = of_char (CHR ''-'') \<or> n ! i = of_char (CHR ''_'')
          then n ! i else of_char (CHR ''_'')))
   \<and> sanitize U (sanitize U n) = sanitize U n
   \<and> sanitize U [] = []
   \<and> sanitize U (py ''!? ./'') = py ''_____''
   \<and> sanitize U (py ''My Game!'') = py ''My_Game_''"
proof -
  have idem: "sanitize U (sanitize U n) = sanitize U n"
    by (simp add: sanitize_map)
  have ex1: "sanitize U (py ''!? ./'') = py ''_____''"
    by (simp add: sanitize_map py_Cons py_Nil isalnum_def)
  have ex2: "sanitize U (py ''My Game!'') = py ''My_Game_''"
    by (simp add: sanitize_map py_Cons py_Nil isalnum_def)
  show ?thesis
    using idem ex1 ex2 by (simp add: sanitize_map)
qed

theorem sanitize_spec_witness:
  "(1::nat) < length (py ''a b'') \<and> sanitize ascii_only (py ''a b'') ! 1 = of_char (CHR ''_'')
   \<and> sanitize ascii_only (py ''a b'') = py ''a_b''"
proof -
  have len: "(1::nat) < length (py ''a b'')"
    by (simp add: py_def)
  from sanitize_spec [of ascii_only "py ''a b''"]
  have "\<forall>i<length (py ''a b''). sanitize ascii_only (py ''a b'') ! i =
         (if isalnum ascii_only (py ''a b'' ! i) \<or> py ''a b'' ! i = of_char (CHR ''-'')
             \<or> py ''a b'' ! i = of_char (CHR ''_'')
          then py ''a b'' ! i else of_char (CHR ''_''))"
    by blast
  with len have "sanitize ascii_only (py ''a b'') ! 1 =
         (if isalnum ascii_only (py ''a b'' ! 1) \<or> py ''a b'' ! 1 = of_char (CHR ''-'')
             \<or> py ''a b'' ! 1 = of_char (CHR ''_'')
          then py ''a b'' ! 1 else of_char (CHR ''_''))"
    by blast
  then have "sanitize ascii_only (py ''a b'') ! 1 = of_char (CHR ''_'')"
    by (simp add: py_Cons py_Nil isalnum_def)
  moreover have "sanitize ascii_only (py ''a b'') = py ''a_b''"
    by (simp add: sanitize_def py_Cons py_Nil isalnum_def)
  ultimately show ?thesis using len by simp
qed

section \<open>Paths\<close>

lemma startswith_iff: "startswith s p \<longleftrightarrow> (\<exists>rest. s = p @ rest)"
  by (simp add: startswith_def prefix_def)

lemma endswith_iff: "endswith s p \<longleftrightarrow> (\<exists>rest. s = rest @ p)"
  by (simp add: endswith_def suffix_def)

lemma final_segment_suffix: "suffix (final_segment p) p"
proof -
  have "rev p = takeWhile (\<lambda>c. c \<noteq> 47) (rev p) @ dropWhile (\<lambda>c. c \<noteq> 47) (rev p)"
    by simp
  then have "p = rev (dropWhile (\<lambda>c. c \<noteq> 47) (rev p)) @ final_segment p"
    unfolding final_segment_def by (metis rev_append rev_rev_ident)
  then show ?thesis
    by (metis suffixI)
qed

lemma extension_suffix: "suffix (extension p) p"
proof (cases "46 \<in> set (final_segment p)")
  case False
  then show ?thesis by (simp add: extension_def)
next
  case True
  let ?seg = "final_segment p"
  let ?t = "takeWhile (\<lambda>c. c \<noteq> 46) (rev ?seg)"
  from True have "dropWhile (\<lambda>c. c \<noteq> 46) (rev ?seg) \<noteq> []"
    by simp
  moreover have "hd (dropWhile (\<lambda>c. c \<noteq> 46) (rev ?seg)) = 46"
    using calculation hd_dropWhile [of "\<lambda>c. c \<noteq> 46" "rev ?seg"] by simp
  ultimately obtain r where r: "dropWhile (\<lambda>c. c \<noteq> 46) (rev ?seg) = 46 # r"
    by (cases "dropWhile (\<lambda>c. c \<noteq> 46) (rev ?seg)") auto
  have "rev ?seg = ?t @ 46 # r"
    using r takeWhile_dropWhile_id [of "\<lambda>c. c \<noteq> 46" "rev ?seg"] by simp
  then have "?seg = rev r @ 46 # rev ?t"
    by (metis rev_append rev_rev_ident rev.simps(2) append_Cons append_Nil append_assoc)
  then have "suffix (46 # rev ?t) ?seg"
    by (metis suffixI)
  with True show ?thesis
    using final_segment_suffix [of p] by (simp add: extension_def Let_def)
qed

lemma extension_of_suffix:
  assumes "46 \<notin> set e" "47 \<notin> set e"
  shows "extension (pre @ 46 # e) = 46 # e"
proof -
  have "takeWhile (\<lambda>c. c \<noteq> 47) (rev e @ 46 # rev pre)
          = rev e @ takeWhile (\<lambda>c. c \<noteq> 47) (46 # rev pre)"
    by (rule takeWhile_append2) (use assms in auto)
  then have seg: "final_segment (pre @ 46 # e) = rev (takeWhile (\<lambda>c. c \<noteq> 47) (rev pre)) @ 46 # e"
    by (simp add: final_segment_def)
  have "takeWhile (\<lambda>c. c \<noteq> 46) (rev e @ 46 # takeWhile (\<lambda>c. c \<noteq> 47) (rev pre))
          = rev e @ takeWhile (\<lambda>c. c \<noteq> 46) (46 # takeWhile (\<lambda>c. c \<noteq> 47) (rev pre))"
    by (rule takeWhile_append2) (use assms in auto)
  then show ?thesis
    by (simp add: extension_def seg)
qed

lemma endswith_extension:
  assumes "46 \<notin> set e" "47 \<notin> set e"
  shows "endswith s (46 # e) \<longleftrightarrow> extension s = 46 # e"
proof
  assume "endswith s (46 # e)"
  then obtain pre where "s = pre @ 46 # e"
    by (auto simp: endswith_def suffix_def)
  with assms show "extension s = 46 # e"
    by (simp add: extension_of_suffix)
next
  assume "extension s = 46 # e"
  then show "endswith s (46 # e)"
    using extension_suffix [of s] by (simp add: endswith_def)
qed

lemma endswith_ext:
  "endswith s (py ''.html'') \<longleftrightarrow> extension s = py ''.html''"
  "endswith s (py ''.css'') \<longleftrightarrow> extension s = py ''.css''"
  "endswith s (py ''.js'') \<longleftrightarrow> extension s = py ''.js''"
  "endswith s (py ''.json'') \<longleftrightarrow> extension s = py ''.json''"
  "endswith s (py ''.wasm'') \<longleftrightarrow> extension s = py ''.wasm''"
  "endswith s (py ''.png'') \<longleftrightarrow> extension s = py ''.png''"
  "endswith s (py ''.jpg'') \<longleftrightarrow> extension s = py ''.jpg''"
  "endswith s (py ''.jpeg'') \<longleftrightarrow> extension s = py ''.jpeg''"
  "endswith s (py ''.svg'') \<longleftrightarrow> extension s = py ''.svg''"
  "endswith s (py ''.gif'') \<longleftrightarrow> extension s = py ''.gif''"
  "endswith s (py ''.ico'') \<longleftrightarrow> extension s = py ''.ico''"
  by (simp_all add: py_Cons py_Nil endswith_extension)

lemma lower_ascii:
  assumes "\<forall>c\<in>set s. c < 128"
  shows "lower U s = map (\<lambda>c. if 65 \<le> c \<and> c \<le> 90 then c + 32 else c) s"
proof -
  have "map (\<lambda>i. if s ! i < 128
                   then [if 65 \<le> s ! i \<and> s ! i \<le> 90 then s ! i + 32 else s ! i]
                   else lower_beyond_ascii U s i) [0..<length s]
        = map (\<lambda>i. [if 65 \<le> s ! i \<and> s ! i \<le> 90 then s ! i + 32 else s ! i]) [0..<length s]"
    using assms by (intro map_cong refl) simp
  also have "\<dots> = map (\<lambda>c. [if 65 \<le> c \<and> c \<le> 90 then c + 32 else c]) s"
    by (intro nth_equalityI) simp_all
  finally show ?thesis
    by (simp add: lower_def)
qed

section \<open>The content-type resolver\<close>

text \<open>
  C6. The content type is a function of the entry path alone, defined on every path: it
  is what the table of section 4.3 gives for the extension of the lowercased path, and
  \<open>application/octet-stream\<close> when the table has no such extension.
\<close>

theorem content_type_by_extension:
  "content_type_of U entry_path =
     (case map_of content_types (extension (lower U entry_path)) of
        Some mime \<Rightarrow> mime
      | None \<Rightarrow> py ''application/octet-stream'')
   \<and> content_type_of U (py ''img/Logo.PNG'') = py ''image/png''
   \<and> content_type_of U (py ''data.json'') = py ''application/json''
   \<and> content_type_of U (py ''v1.2/LICENSE'') = py ''application/octet-stream''"
proof -
  have table: "content_type_of U p =
     (case map_of content_types (extension (lower U p)) of
        Some mime \<Rightarrow> mime
      | None \<Rightarrow> py ''application/octet-stream'')" for p
    unfolding content_type_of_def Let_def endswith_ext content_types_def
    by (simp add: py_Cons py_Nil)
  have l1: "lower U (py ''img/Logo.PNG'') = py ''img/logo.png''"
    by (subst lower_ascii) (simp_all add: py_Cons py_Nil)
  have l2: "lower U (py ''data.json'') = py ''data.json''"
    by (subst lower_ascii) (simp_all add: py_Cons py_Nil)
  have l3: "lower U (py ''v1.2/LICENSE'') = py ''v1.2/license''"
    by (subst lower_ascii) (simp_all add: py_Cons py_Nil)
  have "content_type_of U (py ''img/Logo.PNG'') = py ''image/png''"
    unfolding content_type_of_def Let_def l1 by code_simp
  moreover have "content_type_of U (py ''data.json'') = py ''application/json''"
    unfolding content_type_of_def Let_def l2 by code_simp
  moreover have "content_type_of U (py ''v1.2/LICENSE'') = py ''application/octet-stream''"
    unfolding content_type_of_def Let_def l3 by code_simp
  ultimately show ?thesis
    using table by blast
qed

section \<open>Filtering\<close>

text \<open>
  C1, at the failing input. Filtering is to remove every record whose final segment
  starts with \<open>._\<close>, at any depth. \<open>game/._file\<close> and \<open>game/._index.html\<close> are such
  records, yet line 96 keeps them and the loop does not pass over them: an archive of
  \<open>game/index.html\<close> and \<open>game/._index.html\<close> is accepted and both are written, the
  metadata file as \<open>text/html\<close>. The test of lines 96 and 144 looks at the start of the
  whole path, so it also removes \<open>._dir/file\<close>, whose final segment has no such prefix.
\<close>

theorem nested_dot_underscore_kept:
  "noise_by_spec (py ''game/._file'')
   \<and> valid_files_of [py ''game/index.html'', py ''game/._file'']
       = [py ''game/index.html'', py ''game/._file'']
   \<and> \<not> skipped (entry ''game/._file'')
   \<and> noise_by_spec (py ''game/._index.html'')
   \<and> upload ascii_only
        (demo_world [entry ''game/index.html'', entry ''game/._index.html''] no_fault)
        (demo_request (py ''g'')) empty_store
       = (Inr (completed ''g'' ''https://play.example/g/index.html''),
          wrote empty_store [put ''g/index.html'' ''text/html'', put ''g/._index.html'' ''text/html''])
   \<and> \<not> noise_by_spec (py ''._dir/file'')
   \<and> valid_files_of [py ''._dir/file''] = []"
  by code_simp

text \<open>
  What lines 96 and 142-147 do: the names removed are exactly those that start with
  \<open>__MACOSX/\<close>, or start with \<open>._\<close> as a whole path, or end with a separator; the
  records the loop passes over are those line 96 removes; and what is kept does not
  depend on the order of the archive.
\<close>

theorem filtering_rule:
  "(name \<in> set (valid_files_of names) \<longleftrightarrow>
      name \<in> set names
      \<and> \<not> (\<exists>rest. name = py ''__MACOSX/'' @ rest \<or> name = py ''._'' @ rest \<or> name = rest @ py ''/''))
   \<and> valid_files_of (map filename zf) = map filename (filter (\<lambda>info. \<not> skipped info) zf)
   \<and> valid_files_of (xs @ ys) = valid_files_of xs @ valid_files_of ys
   \<and> valid_files_of (rev names) = rev (valid_files_of names)"
proof -
  have "valid_files_of (map filename zf) = map filename (filter (\<lambda>info. \<not> skipped info) zf)"
    by (induction zf) (simp_all add: valid_files_of_def skipped_def is_dir_def)
  moreover have "name \<in> set (valid_files_of names) \<longleftrightarrow>
      name \<in> set names
      \<and> \<not> (\<exists>rest. name = py ''__MACOSX/'' @ rest \<or> name = py ''._'' @ rest \<or> name = rest @ py ''/'')"
    unfolding valid_files_of_def startswith_iff endswith_iff by auto
  ultimately show ?thesis
    by (simp add: valid_files_of_def rev_filter)
qed

section \<open>The entry page\<close>

text \<open>
  C2, at the failing input. The final segment of \<open>myindex.html\<close> is not \<open>index.html\<close>,
  yet the check of lines 102-105 finds an entry page, and the archive is published.
\<close>

theorem suffix_passes_for_entry_page:
  "\<not> entry_page_by_spec ascii_only (py ''myindex.html'')
   \<and> has_index ascii_only (valid_files_of [py ''myindex.html''])
   \<and> upload ascii_only (demo_world [entry ''myindex.html''] no_fault) (demo_request (py ''g'')) empty_store
       = (Inr (completed ''g'' ''https://play.example/g/index.html''),
          wrote empty_store [put ''g/myindex.html'' ''text/html''])"
  by code_simp

section \<open>The upload loop\<close>

lemma publishable_Nil: "publishable V [] = []"
  by (simp add: publishable_def)

lemma publishable_Cons:
  "publishable V (info # zf) =
     (if skipped info then publishable V zf
      else case strip_root V (filename info) of
             None \<Rightarrow> publishable V zf
           | Some p \<Rightarrow> (info, p) # publishable V zf)"
  by (simp add: publishable_def split: option.splits)

lemma planned_Nil: "planned U b safe V [] = []"
  by (simp add: planned_def publishable_Nil)

lemma planned_Cons:
  "planned U b safe V (info # zf) =
     (if skipped info then planned U b safe V zf
      else case strip_root V (filename info) of
             None \<Rightarrow> planned U b safe V zf
           | Some p \<Rightarrow>
               map_sum id (\<lambda>content. \<lparr>Bucket = b, Key = safe @ py ''/'' @ p, Body = content,
                                      ContentType = content_type_of U p\<rparr>) (payload info)
               # planned U b safe V zf)"
  by (simp add: planned_def publishable_Cons split: option.splits)

lemma wrote_Nil: "wrote st [] = st"
  by (simp add: wrote_def)

lemma wrote_wrote: "wrote (wrote st rs) rs' = wrote st (rs @ rs')"
  by (simp add: wrote_def)

lemma put_object_ok:
  "put_fault w st rq = None \<Longrightarrow> put_object w st rq = (None, wrote st [rq])"
  by (simp add: put_object_def wrote_def)

lemma put_object_fault:
  "put_fault w st rq = Some e \<Longrightarrow> put_object w st rq = (Some e, st\<lparr>attempted := attempted st @ [rq]\<rparr>)"
  by (simp add: put_object_def)

lemma os_environ_Some: "environ w k = Some v \<Longrightarrow> os_environ w k = Inr v"
  by (simp add: os_environ_def)

lemma upload_loop_skip:
  "skipped info \<or> strip_root V (filename info) = None \<Longrightarrow>
   upload_loop U w safe V (info # zf) n st = upload_loop U w safe V zf n st"
  by auto

lemma upload_loop_unreadable:
  "\<not> skipped info \<Longrightarrow> strip_root V (filename info) = Some p \<Longrightarrow> payload info = Inl e \<Longrightarrow>
   upload_loop U w safe V (info # zf) n st = (Inl e, st)"
  by simp

lemma upload_loop_no_bucket:
  "\<not> skipped info \<Longrightarrow> strip_root V (filename info) = Some p \<Longrightarrow> payload info = Inr content \<Longrightarrow>
   environ w (py ''R2_BUCKET_NAME'') = None \<Longrightarrow>
   \<exists>e. upload_loop U w safe V (info # zf) n st = (Inl e, st)"
  by (simp add: os_environ_def)

lemma upload_loop_put_ok:
  "\<not> skipped info \<Longrightarrow> strip_root V (filename info) = Some p \<Longrightarrow> payload info = Inr content \<Longrightarrow>
   environ w (py ''R2_BUCKET_NAME'') = Some b \<Longrightarrow>
   put_fault w st \<lparr>Bucket = b, Key = safe @ py ''/'' @ p, Body = content,
                   ContentType = content_type_of U p\<rparr> = None \<Longrightarrow>
   upload_loop U w safe V (info # zf) n st =
     upload_loop U w safe V zf (n + 1)
       (wrote st [\<lparr>Bucket = b, Key = safe @ py ''/'' @ p, Body = content,
                   ContentType = content_type_of U p\<rparr>])"
  by (simp add: os_environ_Some put_object_ok)

lemma upload_loop_put_fault:
  "\<not> skipped info \<Longrightarrow> strip_root V (filename info) = Some p \<Longrightarrow> payload info = Inr content \<Longrightarrow>
   environ w (py ''R2_BUCKET_NAME'') = Some b \<Longrightarrow>
   put_fault w st \<lparr>Bucket = b, Key = safe @ py ''/'' @ p, Body = content,
                   ContentType = content_type_of U p\<rparr> = Some e \<Longrightarrow>
   upload_loop U w safe V (info # zf) n st =
     (Inl e, st\<lparr>attempted := attempted st @ [\<lparr>Bucket = b, Key = safe @ py ''/'' @ p, Body = content,
                   ContentType = content_type_of U p\<rparr>]\<rparr>)"
  by (simp add: os_environ_Some put_object_fault)

declare upload_loop.simps(2) [simp del]


text \<open>A run of the loop that ends normally has made every planned write.\<close>

lemma upload_loop_Inr:
  assumes "upload_loop U w safe V zf n st = (Inr m, st')"
  shows "\<exists>rs. st' = wrote st rs \<and> m = n + length rs \<and> length rs = length (publishable V zf)
              \<and> (\<forall>b. environ w (py ''R2_BUCKET_NAME'') = Some b \<longrightarrow>
                     planned U b safe V zf = map Inr rs)"
  using assms
proof (induction zf arbitrary: n st)
  case Nil
  then show ?case
    by (simp add: publishable_Nil planned_Nil wrote_Nil)
next
  case (Cons info zf)
  show ?case
  proof (cases "skipped info \<or> strip_root V (filename info) = None")
    case True
    then have "upload_loop U w safe V zf n st = (Inr m, st')"
      using Cons.prems by (simp only: upload_loop_skip)
    from Cons.IH [OF this] obtain rs where rs:
      "st' = wrote st rs" "m = n + length rs" "length rs = length (publishable V zf)"
      "\<forall>b. environ w (py ''R2_BUCKET_NAME'') = Some b \<longrightarrow> planned U b safe V zf = map Inr rs"
      by blast
    have "publishable V (info # zf) = publishable V zf"
      using True by (auto simp: publishable_Cons)
    moreover have "planned U b safe V (info # zf) = planned U b safe V zf" for b
      using True by (auto simp: planned_Cons)
    ultimately show ?thesis
      using rs by auto
  next
    case False
    then obtain p where p: "\<not> skipped info" "strip_root V (filename info) = Some p"
      by auto
    have "\<exists>content. payload info = Inr content"
    proof (cases "payload info")
      case (Inl e)
      with Cons.prems upload_loop_unreadable [OF p Inl] show ?thesis by simp
    qed simp
    then obtain content where content: "payload info = Inr content" ..
    have "\<exists>b. environ w (py ''R2_BUCKET_NAME'') = Some b"
    proof (cases "environ w (py ''R2_BUCKET_NAME'')")
      case None
      with Cons.prems upload_loop_no_bucket [OF p content None, of U safe zf n st]
      show ?thesis by auto
    qed simp
    then obtain b where b: "environ w (py ''R2_BUCKET_NAME'') = Some b" ..
    let ?rq = "\<lparr>Bucket = b, Key = safe @ py ''/'' @ p, Body = content,
                ContentType = content_type_of U p\<rparr>"
    have ok: "put_fault w st ?rq = None"
    proof (cases "put_fault w st ?rq")
      case (Some e)
      with Cons.prems upload_loop_put_fault [OF p content b Some, of zf n] show ?thesis by simp
    qed simp
    with Cons.prems upload_loop_put_ok [OF p content b ok, of zf n]
    have "upload_loop U w safe V zf (n + 1) (wrote st [?rq]) = (Inr m, st')"
      by simp
    from Cons.IH [OF this] obtain rs where rs:
      "st' = wrote (wrote st [?rq]) rs" "m = n + 1 + length rs"
      "length rs = length (publishable V zf)"
      "\<forall>b. environ w (py ''R2_BUCKET_NAME'') = Some b \<longrightarrow> planned U b safe V zf = map Inr rs"
      by blast
    have "st' = wrote st (?rq # rs)"
      using rs(1) by (simp add: wrote_wrote)
    moreover have "m = n + length (?rq # rs)"
      using rs(2) by simp
    moreover have "length (?rq # rs) = length (publishable V (info # zf))"
      using rs(3) p by (simp add: publishable_Cons)
    moreover have "\<forall>b'. environ w (py ''R2_BUCKET_NAME'') = Some b' \<longrightarrow>
                     planned U b' safe V (info # zf) = map Inr (?rq # rs)"
      using rs(4) p content b by (simp add: planned_Cons)
    ultimately show ?thesis
      by blast
  qed
qed


text \<open>A run of the loop whose writes \<open>ws\<close> are accepted and whose next write is refused.\<close>

lemma upload_loop_first_fault:
  assumes "environ w (py ''R2_BUCKET_NAME'') = Some b"
      and "take (Suc (length ws)) (planned U b safe V zf) = map Inr (ws @ [r])"
      and "\<forall>j<length ws. put_fault w (wrote st (take j ws)) (ws ! j) = None"
      and "put_fault w (wrote st ws) r = Some e"
  shows "upload_loop U w safe V zf n st
           = (Inl e, \<lparr>committed = committed st @ ws, attempted = attempted st @ ws @ [r]\<rparr>)"
  using assms(2-)
proof (induction zf arbitrary: n st ws)
  case Nil
  then show ?case
    by (simp add: planned_Nil)
next
  case (Cons info zf)
  show ?case
  proof (cases "skipped info \<or> strip_root V (filename info) = None")
    case True
    then have "planned U b safe V (info # zf) = planned U b safe V zf"
      by (auto simp: planned_Cons)
    with Cons.prems have "upload_loop U w safe V zf n st
           = (Inl e, \<lparr>committed = committed st @ ws, attempted = attempted st @ ws @ [r]\<rparr>)"
      by (intro Cons.IH) simp_all
    with True show ?thesis
      by (simp only: upload_loop_skip)
  next
    case False
    then obtain p where p: "\<not> skipped info" "strip_root V (filename info) = Some p"
      by auto
    let ?mk = "\<lambda>content. \<lparr>Bucket = b, Key = safe @ py ''/'' @ p, Body = content,
                ContentType = content_type_of U p\<rparr>"
    have pl: "planned U b safe V (info # zf) = map_sum id ?mk (payload info) # planned U b safe V zf"
      using p by (simp add: planned_Cons)
    show ?thesis
    proof (cases ws)
      case Nil
      with Cons.prems(1) pl have "map_sum id ?mk (payload info) = Inr r"
        by simp
      then obtain content where content: "payload info = Inr content" "r = ?mk content"
        by (cases "payload info") auto
      from Cons.prems(3) Nil have "put_fault w st (?mk content) = Some e"
        by (simp add: wrote_Nil content)
      from upload_loop_put_fault [OF p content(1) assms(1) this, of zf n] Nil content(2)
      show ?thesis
        by simp
    next
      case (Cons r0 ws')
      with Cons.prems(1) pl
      have hd: "map_sum id ?mk (payload info) = Inr r0"
        and tl: "take (Suc (length ws')) (planned U b safe V zf) = map Inr (ws' @ [r])"
        by simp_all
      from hd obtain content where content: "payload info = Inr content" "r0 = ?mk content"
        by (cases "payload info") auto
      have "0 < length ws"
        using Cons by simp
      with Cons.prems(2) have "put_fault w (wrote st (take 0 ws)) (ws ! 0) = None"
        by blast
      with Cons content(2) have ok: "put_fault w st (?mk content) = None"
        by (simp add: wrote_Nil)
      have later: "\<forall>j<length ws'. put_fault w (wrote (wrote st [r0]) (take j ws')) (ws' ! j) = None"
      proof (intro allI impI)
        fix j assume "j < length ws'"
        then have "Suc j < length ws"
          using Cons by simp
        with Cons.prems(2) have "put_fault w (wrote st (take (Suc j) ws)) (ws ! Suc j) = None"
          by blast
        with Cons show "put_fault w (wrote (wrote st [r0]) (take j ws')) (ws' ! j) = None"
          by (simp add: wrote_wrote)
      qed
      have last: "put_fault w (wrote (wrote st [r0]) ws') r = Some e"
        using Cons.prems(3) Cons by (simp add: wrote_wrote)
      have "upload_loop U w safe V zf (n + 1) (wrote st [r0])
           = (Inl e, \<lparr>committed = committed (wrote st [r0]) @ ws',
                      attempted = attempted (wrote st [r0]) @ ws' @ [r]\<rparr>)"
        using tl later last by (rule Cons.IH)
      with upload_loop_put_ok [OF p content(1) assms(1) ok, of zf n] Cons content(2)
      show ?thesis
        by (simp add: wrote_def)
    qed
  qed
qed

section \<open>The handler\<close>

lemma validate_zip_Inr:
  "validate_zip U w zc = Inr V \<longleftrightarrow>
     (\<exists>zf. ZipFile w zc = Inr zf \<and> V = valid_files_of (map filename zf) \<and> V \<noteq> []
           \<and> has_index U V)"
proof (cases "ZipFile w zc")
  case (Inl e)
  then show ?thesis
    by (cases e) (simp_all add: validate_zip_def)
next
  case (Inr zf)
  then show ?thesis
    by (auto simp: validate_zip_def Let_def)
qed

lemma init_client_Inr: "init_client w = Inr u \<longleftrightarrow> new_client w = Inr ()"
proof (cases "new_client w")
  case (Inl e)
  then show ?thesis
    by (cases e) (simp_all add: init_client_def)
next
  case (Inr v)
  then show ?thesis
    by (simp add: init_client_def)
qed

lemma validate_request_shell:
  assumes "headers rq (py ''x-game-name'') = Some g" and "g \<noteq> []"
      and "headers rq (py ''x-upload-password'') = Some pw" and "pw \<noteq> []"
      and "environ w (py ''UPLOAD_PASSWORD'') = Some pw"
      and "gameZip rq = Inr zc"
  shows "validate_request U w rq =
           (case validate_zip U w zc of
              Inl f \<Rightarrow> Inl f
            | Inr V \<Rightarrow> (case init_client w of Inl f \<Rightarrow> Inl f
                        | Inr u \<Rightarrow> Inr (sanitize U g, V, zc)))"
  using assms by (simp add: validate_request_def Let_def)

lemma validate_request_Inr:
  assumes "validate_request U w rq = Inr (safe, V, zc)"
  shows "\<exists>g zf. headers rq (py ''x-game-name'') = Some g \<and> g \<noteq> [] \<and> safe = sanitize U g
               \<and> gameZip rq = Inr zc \<and> ZipFile w zc = Inr zf
               \<and> V = valid_files_of (map filename zf) \<and> V \<noteq> [] \<and> has_index U V
               \<and> new_client w = Inr ()"
proof -
  from assms obtain g where g: "headers rq (py ''x-game-name'') = Some g"
    by (cases "headers rq (py ''x-game-name'')") (simp_all add: validate_request_def)
  from assms g obtain pw where pw: "headers rq (py ''x-upload-password'') = Some pw"
    by (cases "headers rq (py ''x-upload-password'')") (simp_all add: validate_request_def)
  from assms g pw have env: "environ w (py ''UPLOAD_PASSWORD'') = Some pw" "pw \<noteq> []" "g \<noteq> []"
    by (simp_all add: validate_request_def Let_def split: if_splits)
  from assms g pw env obtain zc' where zc': "gameZip rq = Inr zc'"
    by (cases "gameZip rq") (simp_all add: validate_request_def Let_def)
  note shell = validate_request_shell [OF g env(3) pw env(2) env(1) zc', of U]
  from assms shell obtain V' where V': "validate_zip U w zc' = Inr V'"
    by (cases "validate_zip U w zc'") simp_all
  from assms shell V' obtain u where u: "init_client w = Inr u"
    by (cases "init_client w") simp_all
  from assms shell V' u have eqs: "safe = sanitize U g" "V = V'" "zc = zc'"
    by simp_all
  from V' eqs obtain zf where "ZipFile w zc = Inr zf" "V = valid_files_of (map filename zf)"
    "V \<noteq> []" "has_index U V"
    by (auto simp: validate_zip_Inr)
  with g env zc' eqs u show ?thesis
    by (auto simp: init_client_Inr)
qed

lemma upload_after_validation:
  assumes "validate_request U w rq = Inr (safe, V, zc)" and "ZipFile w zc = Inr zf"
  shows "upload U w rq st =
           (case upload_loop U w safe V zf 0 st of
              (Inl e, st') \<Rightarrow> (Inl (HTTP (py ''Error processing zip file: '' @ str e) 500), st')
            | (Inr n, st') \<Rightarrow>
                (case environ w (py ''PUBLIC_GAME_URL_BASE'') of
                   None \<Rightarrow> (Inl (Unhandled (KeyError ([39] @ py ''PUBLIC_GAME_URL_BASE'' @ [39]))), st')
                 | Some base \<Rightarrow>
                     (Inr \<lparr>message = py ''Successfully uploaded game '' @ [39] @ safe @ [39] @ py ''.'',
                           gameName = safe, gameUrl = game_url base safe,
                           status = py ''complete''\<rparr>, st')))"
  using assms
  by (simp add: upload_def upload_files_def os_environ_def split: prod.splits sum.splits option.splits)

lemma upload_rejected:
  "validate_request U w rq = Inl f \<Longrightarrow> upload U w rq st = (Inl f, st)"
  by (simp add: upload_def)

section \<open>A failed write\<close>

text \<open>
  C8. When every stage before the loop has passed, the first writes \<open>ws\<close> of the
  publishable entries are accepted and the write \<open>r\<close> of the next one is refused, the
  handler stops there and answers with the error of its upload block (status 500); the
  store has committed exactly \<open>ws\<close> beyond what it held, none of it is undone, and the
  refused write is the last the store receives.
\<close>

theorem first_write_failure_keeps_earlier_writes:
  assumes "validate_request U w rq = Inr (safe, V, zc)"
      and "ZipFile w zc = Inr zf"
      and "environ w (py ''R2_BUCKET_NAME'') = Some b"
      and "take (Suc (length ws)) (planned U b safe V zf) = map Inr (ws @ [r])"
      and "\<forall>j<length ws. put_fault w (wrote st (take j ws)) (ws ! j) = None"
      and "put_fault w (wrote st ws) r = Some e"
  shows "upload U w rq st =
           (Inl (HTTP (py ''Error processing zip file: '' @ str e) 500),
            \<lparr>committed = committed st @ ws, attempted = attempted st @ ws @ [r]\<rparr>)"
  using upload_after_validation [OF assms(1,2), of st]
        upload_loop_first_fault [OF assms(3-6), of 0]
  by simp

theorem first_write_failure_witness:
  "upload ascii_only (demo_world five_files third_write_fails) (demo_request (py ''g'')) empty_store
     = (Inl (HTTP (py ''Error processing zip file: 503'') 500),
        \<lparr>committed = [put ''g/index.html'' ''text/html'', put ''g/a.js'' ''application/javascript''],
         attempted = [put ''g/index.html'' ''text/html'', put ''g/a.js'' ''application/javascript'',
                      put ''g/b.css'' ''text/css'']\<rparr>)"
proof -
  let ?w = "demo_world five_files third_write_fails"
  let ?V = "[py ''game/index.html'', py ''game/a.js'', py ''game/b.css'', py ''game/c.png'',
             py ''game/d.bin'']"
  let ?ws = "[put ''g/index.html'' ''text/html'', put ''g/a.js'' ''application/javascript'']"
  let ?r = "put ''g/b.css'' ''text/css''"
  have 1: "validate_request ascii_only ?w (demo_request (py ''g'')) = Inr (py ''g'', ?V, [])"
    by code_simp
  have 2: "ZipFile ?w [] = Inr five_files"
    by (simp add: demo_world_def)
  have 3: "environ ?w (py ''R2_BUCKET_NAME'') = Some (py ''games'')"
    by code_simp
  have 4: "take (Suc (length ?ws)) (planned ascii_only (py ''games'') (py ''g'') ?V five_files)
             = map Inr (?ws @ [?r])"
    by code_simp
  have 5: "\<forall>j<length ?ws. put_fault ?w (wrote empty_store (take j ?ws)) (?ws ! j) = None"
    by (simp add: All_less_Suc demo_world_def third_write_fails_def wrote_def empty_store_def)
  have 6: "put_fault ?w (wrote empty_store ?ws) ?r = Some (Exception (py ''503''))"
    by (simp add: demo_world_def third_write_fails_def wrote_def empty_store_def)
  show ?thesis
    using first_write_failure_keeps_earlier_writes [OF 1 2 3 4 5 6]
    by (simp add: empty_store_def py_def)
qed

section \<open>The entry URL\<close>

lemma rstrip_decompose:
  "\<exists>k. base = rstrip base [c] @ replicate k c"
proof -
  have "rev base = takeWhile (\<lambda>x. x = c) (rev base) @ dropWhile (\<lambda>x. x = c) (rev base)"
    by simp
  moreover have "takeWhile (\<lambda>x. x = c) (rev base) = replicate (length (takeWhile (\<lambda>x. x = c) (rev base))) c"
    by (rule replicate_length_same [symmetric]) (auto dest: set_takeWhileD)
  ultimately have "rev base = replicate (length (takeWhile (\<lambda>x. x = c) (rev base))) c
                      @ dropWhile (\<lambda>x. x = c) (rev base)"
    by simp
  then have "base = rev (dropWhile (\<lambda>x. x = c) (rev base))
                      @ replicate (length (takeWhile (\<lambda>x. x = c) (rev base))) c"
    by (metis rev_append rev_rev_ident rev_replicate)
  then show ?thesis
    by (auto simp: rstrip_def)
qed

lemma rstrip_not_endswith: "\<not> endswith (rstrip base [c]) [c]"
proof
  assume "endswith (rstrip base [c]) [c]"
  then obtain pre where "rstrip base [c] = pre @ [c]"
    by (auto simp: endswith_def suffix_def)
  then have "dropWhile (\<lambda>x. x = c) (rev base) = c # rev pre"
    by (simp add: rstrip_def) (metis rev.simps(2) rev_rev_ident)
  then have "hd (dropWhile (\<lambda>x. x = c) (rev base)) = c" "dropWhile (\<lambda>x. x = c) (rev base) \<noteq> []"
    by simp_all
  then show False
    using hd_dropWhile [of "\<lambda>x. x = c" "rev base"] by simp
qed

text \<open>
  C7. When every stage before the loop has passed, the loop has ended normally and a
  base URL is configured, the handler answers with a completed upload whose \<open>gameUrl\<close>
  is the base URL without its trailing separators, then \<open>/\<close>, the sanitized game name
  and \<open>/index.html\<close>; building it is defined for every base URL and every name.
\<close>

theorem entry_url_of_completed_upload:
  assumes "validate_request U w rq = Inr (safe, V, zc)"
      and "upload_files U w safe V zc st = (Inr n, st')"
      and "environ w (py ''PUBLIC_GAME_URL_BASE'') = Some base"
  shows "\<exists>c g k. upload U w rq st = (Inr c, st')
           \<and> headers rq (py ''x-game-name'') = Some g \<and> safe = sanitize U g
           \<and> gameUrl c = game_url base safe
           \<and> game_url base safe = rstrip base (py ''/'') @ py ''/'' @ safe @ py ''/index.html''
           \<and> base = rstrip base (py ''/'') @ replicate k 47
           \<and> \<not> endswith (rstrip base (py ''/'')) (py ''/'')"
proof -
  from validate_request_Inr [OF assms(1)] obtain g where
    g: "headers rq (py ''x-game-name'') = Some g" "safe = sanitize U g"
    by blast
  have slash: "py ''/'' = [47]"
    by (simp add: py_def)
  from rstrip_decompose [of base 47] obtain k where k: "base = rstrip base (py ''/'') @ replicate k 47"
    unfolding slash by blast
  have "upload U w rq st =
          (Inr \<lparr>message = py ''Successfully uploaded game '' @ [39] @ safe @ [39] @ py ''.'',
                gameName = safe, gameUrl = game_url base safe, status = py ''complete''\<rparr>, st')"
    using assms by (simp add: upload_def os_environ_def)
  moreover have "\<not> endswith (rstrip base (py ''/'')) (py ''/'')"
    unfolding slash by (rule rstrip_not_endswith)
  ultimately show ?thesis
    using g k by (auto simp: game_url_def)
qed

theorem entry_url_witness:
  "upload ascii_only (demo_world five_files no_fault) (demo_request (py ''My Game!'')) empty_store
     = (Inr (completed ''My_Game_'' ''https://play.example/My_Game_/index.html''),
        wrote empty_store
          [put ''My_Game_/index.html'' ''text/html'', put ''My_Game_/a.js'' ''application/javascript'',
           put ''My_Game_/b.css'' ''text/css'', put ''My_Game_/c.png'' ''image/png'',
           put ''My_Game_/d.bin'' ''application/octet-stream''])
   \<and> game_url (py ''https://play.example//'') (py ''My_Game_'')
       = py ''https://play.example/My_Game_/index.html''"
proof -
  let ?w = "demo_world five_files no_fault"
  let ?V = "[py ''game/index.html'', py ''game/a.js'', py ''game/b.css'', py ''game/c.png'',
             py ''game/d.bin'']"
  let ?st = "wrote empty_store
          [put ''My_Game_/index.html'' ''text/html'', put ''My_Game_/a.js'' ''application/javascript'',
           put ''My_Game_/b.css'' ''text/css'', put ''My_Game_/c.png'' ''image/png'',
           put ''My_Game_/d.bin'' ''application/octet-stream'']"
  have 1: "validate_request ascii_only ?w (demo_request (py ''My Game!'')) = Inr (py ''My_Game_'', ?V, [])"
    by code_simp
  have 2: "upload_files ascii_only ?w (py ''My_Game_'') ?V [] empty_store = (Inr 5, ?st)"
    by code_simp
  have 3: "environ ?w (py ''PUBLIC_GAME_URL_BASE'') = Some (py ''https://play.example//'')"
    by code_simp
  have 4: "game_url (py ''https://play.example//'') (py ''My_Game_'')
       = py ''https://play.example/My_Game_/index.html''"
    by code_simp
  from entry_url_of_completed_upload [OF 1 2 3] obtain c where
    "upload ascii_only ?w (demo_request (py ''My Game!'')) empty_store = (Inr c, ?st)"
    "gameUrl c = game_url (py ''https://play.example//'') (py ''My_Game_'')"
    by blast
  moreover have "upload ascii_only ?w (demo_request (py ''My Game!'')) empty_store
     = (Inr (completed ''My_Game_'' ''https://play.example/My_Game_/index.html''), ?st)"
    by code_simp
  ultimately show ?thesis
    using 4 by simp
qed

section \<open>The count of objects written\<close>

text \<open>
  Against C4 as stated: an archive of one file and an archive of two get the same
  answer from the handler, while one object is written for the first and two for the
  second; the answer does not hold the count.
\<close>

theorem reply_hides_the_count:
  "fst (upload ascii_only (demo_world [entry ''index.html''] no_fault) (demo_request (py ''g'')) empty_store)
     = Inr (completed ''g'' ''https://play.example/g/index.html'')
   \<and> fst (upload ascii_only (demo_world [entry ''index.html'', entry ''style.css''] no_fault)
            (demo_request (py ''g'')) empty_store)
     = Inr (completed ''g'' ''https://play.example/g/index.html'')
   \<and> length (committed (snd (upload ascii_only (demo_world [entry ''index.html''] no_fault)
                                 (demo_request (py ''g'')) empty_store))) = 1
   \<and> length (committed (snd (upload ascii_only
                                 (demo_world [entry ''index.html'', entry ''style.css''] no_fault)
                                 (demo_request (py ''g'')) empty_store))) = 2"
  by code_simp

text \<open>
  C4, amended. On every successful run the loop's \<open>uploaded_count\<close> is the number of
  publishable entries and the number of writes the store has received and committed
  during the run, and the answer holds the entry URL with a message, the sanitized name
  and the status \<open>complete\<close>; these four fields are all it holds.
\<close>

theorem uploaded_count_counts_writes:
  assumes "upload U w rq st = (Inr c, st')"
  shows "\<exists>safe V zc zf uploaded_count base rs.
           validate_request U w rq = Inr (safe, V, zc) \<and> ZipFile w zc = Inr zf
           \<and> upload_loop U w safe V zf 0 st = (Inr uploaded_count, st')
           \<and> uploaded_count = length (publishable V zf)
           \<and> length rs = uploaded_count
           \<and> committed st' = committed st @ rs \<and> attempted st' = attempted st @ rs
           \<and> environ w (py ''PUBLIC_GAME_URL_BASE'') = Some base
           \<and> c = \<lparr>message = py ''Successfully uploaded game '' @ [39] @ safe @ [39] @ py ''.'',
                   gameName = safe, gameUrl = game_url base safe, status = py ''complete''\<rparr>"
proof -
  from assms obtain safe V zc where v: "validate_request U w rq = Inr (safe, V, zc)"
    by (cases "validate_request U w rq") (auto simp: upload_def)
  from validate_request_Inr [OF v] obtain zf where zf: "ZipFile w zc = Inr zf"
    by blast
  note up = upload_after_validation [OF v zf, of st]
  obtain res st1 where loop: "upload_loop U w safe V zf 0 st = (res, st1)"
    by (cases "upload_loop U w safe V zf 0 st")
  from assms up loop obtain n where n: "res = Inr n"
    by (cases res) simp_all
  from assms up loop n obtain base where base: "environ w (py ''PUBLIC_GAME_URL_BASE'') = Some base"
    by (cases "environ w (py ''PUBLIC_GAME_URL_BASE'')") simp_all
  from assms up loop n base have c: "st1 = st'"
    "c = \<lparr>message = py ''Successfully uploaded game '' @ [39] @ safe @ [39] @ py ''.'',
          gameName = safe, gameUrl = game_url base safe, status = py ''complete''\<rparr>"
    by simp_all
  from upload_loop_Inr [of U w safe V zf 0 st n st'] loop n c(1)
  obtain rs where rs: "st' = wrote st rs" "n = length rs" "length rs = length (publishable V zf)"
    by auto
  from rs(1) have "committed st' = committed st @ rs" "attempted st' = attempted st @ rs"
    by (simp_all add: wrote_def)
  with v zf loop n c base rs show ?thesis
    by auto
qed

theorem uploaded_count_witness:
  "upload ascii_only (demo_world five_files no_fault) (demo_request (py ''g'')) empty_store
     = (Inr (completed ''g'' ''https://play.example/g/index.html''),
        wrote empty_store
          [put ''g/index.html'' ''text/html'', put ''g/a.js'' ''application/javascript'',
           put ''g/b.css'' ''text/css'', put ''g/c.png'' ''image/png'',
           put ''g/d.bin'' ''application/octet-stream''])
   \<and> (\<exists>safe V zc uploaded_count.
         upload_loop ascii_only (demo_world five_files no_fault) safe V five_files 0 empty_store
           = (Inr uploaded_count,
              wrote empty_store
                [put ''g/index.html'' ''text/html'', put ''g/a.js'' ''application/javascript'',
                 put ''g/b.css'' ''text/css'', put ''g/c.png'' ''image/png'',
                 put ''g/d.bin'' ''application/octet-stream''])
         \<and> uploaded_count = 5)"
proof -
  let ?w = "demo_world five_files no_fault"
  let ?st = "wrote empty_store
          [put ''g/index.html'' ''text/html'', put ''g/a.js'' ''application/javascript'',
           put ''g/b.css'' ''text/css'', put ''g/c.png'' ''image/png'',
           put ''g/d.bin'' ''application/octet-stream'']"
  have run: "upload ascii_only ?w (demo_request (py ''g'')) empty_store
     = (Inr (completed ''g'' ''https://play.example/g/index.html''), ?st)"
    by code_simp
  have zip: "ZipFile ?w zc = Inr five_files" for zc
    by (simp add: demo_world_def)
  from uploaded_count_counts_writes [OF run]
  obtain safe V zc zf uploaded_count rs where *:
    "ZipFile ?w zc = Inr zf"
    "upload_loop ascii_only ?w safe V zf 0 empty_store = (Inr uploaded_count, ?st)"
    "length rs = uploaded_count" "committed ?st = committed empty_store @ rs"
    by blast
  from *(1) zip have "zf = five_files"
    by simp
  moreover from *(3,4) have "uploaded_count = 5"
    by (auto simp: wrote_def empty_store_def)
  ultimately show ?thesis
    using run *(2) by blast
qed

section \<open>No write before the loop\<close>



section \<open>Root stripping\<close>

lemma slash: "py ''/'' = [47]"
  by (simp add: py_def)

lemma startswith_set: "startswith s p \<Longrightarrow> c \<in> set p \<Longrightarrow> c \<in> set s"
  unfolding startswith_def by (auto dest: set_mono_prefix)

lemma first_segment_no_sep: "47 \<notin> set (first_segment s)"
  by (auto simp: first_segment_def dest: set_takeWhileD)

lemma first_segment_append: "47 \<notin> set seg \<Longrightarrow> first_segment (seg @ 47 # r) = seg"
  unfolding first_segment_def by (subst takeWhile_append2) auto

lemma split1_sep:
  assumes "47 \<in> set s"
  shows "split1 s 47 ! 0 = first_segment s"
    and "first_segment s @ 47 # split1 s 47 ! 1 = s"
proof -
  from assms have ne: "dropWhile (\<lambda>c. c \<noteq> 47) s \<noteq> []"
    by simp
  then have "hd (dropWhile (\<lambda>c. c \<noteq> 47) s) = 47"
    using hd_dropWhile [of "\<lambda>c. c \<noteq> 47" s] by simp
  with ne obtain rest where rest: "dropWhile (\<lambda>c. c \<noteq> 47) s = 47 # rest"
    by (cases "dropWhile (\<lambda>c. c \<noteq> 47) s") auto
  then have sp: "split1 s 47 = [first_segment s, rest]"
    by (simp add: split1_def first_segment_def)
  then show "split1 s 47 ! 0 = first_segment s"
    by simp
  have "takeWhile (\<lambda>c. c \<noteq> 47) s @ dropWhile (\<lambda>c. c \<noteq> 47) s = s"
    by (rule takeWhile_dropWhile_id)
  then have "first_segment s @ 47 # rest = s"
    unfolding rest first_segment_def .
  then show "first_segment s @ 47 # split1 s 47 ! 1 = s"
    unfolding sp by simp
qed

lemma strip_root_no_sep: "47 \<notin> set n \<Longrightarrow> strip_root V n = Some n"
  by (simp add: strip_root_def)

lemma strip_root_sep:
  assumes "47 \<in> set n"
  shows "strip_root V n =
           (if \<forall>f\<in>set V. startswith f (first_segment n @ py ''/'')
            then (if split1 n 47 ! 1 = [] then None else Some (split1 n 47 ! 1))
            else Some n)"
  unfolding strip_root_def Let_def split1_sep(1) [OF assms] list_all_iff
  using assms by simp

lemma split1_shorter:
  assumes "47 \<in> set e"
  shows "split1 e 47 ! 1 \<noteq> e"
proof -
  have "length (first_segment e @ 47 # split1 e 47 ! 1) = length e"
    by (simp only: split1_sep(2) [OF assms])
  then have "length (split1 e 47 ! 1) < length e"
    by simp
  then show ?thesis
    by auto
qed

lemma strip_root_changes:
  assumes "e \<in> set V"
  shows "strip_root V e \<noteq> Some e \<longleftrightarrow> (\<forall>f\<in>set V. startswith f (first_segment e @ py ''/''))"
proof (cases "47 \<in> set e")
  case False
  have "\<not> startswith e (first_segment e @ py ''/'')"
  proof
    assume "startswith e (first_segment e @ py ''/'')"
    then have "47 \<in> set e"
      by (rule startswith_set) (simp add: slash)
    with False show False ..
  qed
  with assms False show ?thesis
    by (auto simp: strip_root_no_sep)
next
  case True
  then show ?thesis
    using split1_shorter [OF True] by (simp add: strip_root_sep)
qed

lemma strip_root_result:
  assumes "strip_root V e \<noteq> Some e"
  shows "\<exists>rest. e = first_segment e @ py ''/'' @ rest
               \<and> strip_root V e = (if rest = [] then None else Some rest)"
proof -
  from assms have sep: "47 \<in> set e"
    by (metis strip_root_no_sep)
  with assms have res: "strip_root V e = (if split1 e 47 ! 1 = [] then None else Some (split1 e 47 ! 1))"
    by (simp add: strip_root_sep split: if_splits)
  have "e = first_segment e @ py ''/'' @ split1 e 47 ! 1"
    unfolding slash using split1_sep(2) [OF sep] by simp
  with res show ?thesis
    by (intro exI conjI)
qed

lemma shared_root:
  assumes "\<forall>f\<in>set V. startswith f (first_segment e @ py ''/'')" and "f \<in> set V"
  shows "first_segment f = first_segment e" and "47 \<in> set f"
proof -
  from assms have sw: "startswith f (first_segment e @ py ''/'')"
    by blast
  then show "47 \<in> set f"
    by (rule startswith_set) (simp add: slash)
  from sw obtain r where r: "f = first_segment e @ 47 # r"
    by (auto simp: startswith_iff slash)
  show "first_segment f = first_segment e"
    unfolding r by (rule first_segment_append) (rule first_segment_no_sep)
qed

lemma strip_root_nonempty:
  assumes "strip_root V n = Some p" and "n \<noteq> []"
  shows "p \<noteq> []"
proof (cases "47 \<in> set n")
  case False
  with assms show ?thesis
    by (simp add: strip_root_no_sep)
next
  case True
  with assms show ?thesis
    by (auto simp: strip_root_sep split: if_splits)
qed

lemma strip_root_keeps_files:
  assumes "\<not> endswith e (py ''/'')"
  shows "strip_root V e \<noteq> None"
proof
  assume none: "strip_root V e = None"
  have sep: "47 \<in> set e"
  proof (rule ccontr)
    assume "47 \<notin> set e"
    from strip_root_no_sep [OF this, of V] none show False
      by simp
  qed
  from none have "split1 e 47 ! 1 = []"
    by (simp add: strip_root_sep [OF sep] split: if_splits)
  with split1_sep(2) [OF sep] have "first_segment e @ [47] = e"
    by simp
  then have "e = first_segment e @ py ''/''"
    unfolding slash by (rule sym)
  then have "endswith e (py ''/'')"
    unfolding endswith_iff by (rule exI)
  with assms show False ..
qed

lemma publishable_paths:
  "(info, p) \<in> set (publishable V zf) \<Longrightarrow> \<not> skipped info \<and> strip_root V (filename info) = Some p"
  by (induction zf) (auto simp: publishable_Nil publishable_Cons split: if_splits option.splits)

text \<open>
  C3, at the failing input. Every published path is to be non-empty, and lines 154-155
  drop an entry whose path is empty after stripping. A record whose name is the empty
  string is usable and has no separator, so it takes the branch that does not strip,
  which has no such check: it is written under the key of the game name and a
  separator alone, with an empty published path.
\<close>

theorem empty_name_is_published:
  "valid_files_of [[], py ''index.html''] = [[], py ''index.html'']
   \<and> strip_root [[], py ''index.html''] [] = Some []
   \<and> upload ascii_only
        (demo_world [\<lparr>filename = [], payload = Inr []\<rparr>, entry ''index.html''] no_fault)
        (demo_request (py ''g'')) empty_store
       = (Inr (completed ''g'' ''https://play.example/g/index.html''),
          wrote empty_store [put ''g/'' ''application/octet-stream'', put ''g/index.html'' ''text/html''])"
  by code_simp

text \<open>
  What lines 149-155 do, for an entry \<open>e\<close> of the usable entries \<open>V\<close>: its first segment
  and the separator are stripped exactly when every usable entry starts with that
  segment and the separator; what is stripped is that prefix and nothing else; one
  usable entry without a separator, or with another first segment, leaves every entry
  as it is; the decision is the same for all entries; a usable entry is never dropped,
  so the check of line 154 never holds for a record the loop reaches; and the published
  path of a record is non-empty whenever the record's own name is.
\<close>

theorem root_stripping_rule:
  assumes "e \<in> set V"
  shows "(strip_root V e \<noteq> Some e \<longleftrightarrow> (\<forall>f\<in>set V. startswith f (first_segment e @ py ''/'')))
       \<and> (strip_root V e \<noteq> Some e \<longrightarrow>
            (\<exists>rest. e = first_segment e @ py ''/'' @ rest
                   \<and> strip_root V e = (if rest = [] then None else Some rest)))
       \<and> ((\<exists>f\<in>set V. 47 \<notin> set f \<or> first_segment f \<noteq> first_segment e) \<longrightarrow>
            (\<forall>f\<in>set V. strip_root V f = Some f))
       \<and> (\<forall>f\<in>set V. (strip_root V f \<noteq> Some f) = (strip_root V e \<noteq> Some e))
       \<and> (\<not> endswith e (py ''/'') \<longrightarrow> strip_root V e \<noteq> None)
       \<and> (\<forall>p. strip_root V e = Some p \<and> e \<noteq> [] \<longrightarrow> p \<noteq> [])
       \<and> (\<forall>info p. (info, p) \<in> set (publishable V zf) \<and> filename info \<noteq> [] \<longrightarrow> p \<noteq> [])"
proof -
  have uniform: "(strip_root V f \<noteq> Some f) = (strip_root V e \<noteq> Some e)" if "f \<in> set V" for f
  proof
    assume "strip_root V f \<noteq> Some f"
    then have all: "\<forall>g\<in>set V. startswith g (first_segment f @ py ''/'')"
      using that by (simp add: strip_root_changes)
    from shared_root(1) [OF all assms] all show "strip_root V e \<noteq> Some e"
      using assms by (simp add: strip_root_changes)
  next
    assume "strip_root V e \<noteq> Some e"
    then have all: "\<forall>g\<in>set V. startswith g (first_segment e @ py ''/'')"
      using assms by (simp add: strip_root_changes)
    from shared_root(1) [OF all that] all show "strip_root V f \<noteq> Some f"
      using that by (simp add: strip_root_changes)
  qed
  have differ: "\<forall>f\<in>set V. strip_root V f = Some f"
    if "\<exists>f\<in>set V. 47 \<notin> set f \<or> first_segment f \<noteq> first_segment e"
  proof -
    have "strip_root V e = Some e"
    proof (rule ccontr)
      assume "strip_root V e \<noteq> Some e"
      then have all: "\<forall>g\<in>set V. startswith g (first_segment e @ py ''/'')"
        using assms by (simp add: strip_root_changes)
      with that shared_root [OF all] show False
        by blast
    qed
    with uniform show ?thesis
      by blast
  qed
  have paths: "p \<noteq> []" if "(info, p) \<in> set (publishable V zf)" "filename info \<noteq> []" for info p
    using publishable_paths [OF that(1)] that(2) strip_root_nonempty by blast
  note c1 = strip_root_changes [OF assms]
  have c2: "strip_root V e \<noteq> Some e \<longrightarrow>
            (\<exists>rest. e = first_segment e @ py ''/'' @ rest
                   \<and> strip_root V e = (if rest = [] then None else Some rest))"
    by (rule impI) (rule strip_root_result)
  have c3: "(\<exists>f\<in>set V. 47 \<notin> set f \<or> first_segment f \<noteq> first_segment e) \<longrightarrow>
            (\<forall>f\<in>set V. strip_root V f = Some f)"
    by (rule impI) (rule differ)
  have c4: "\<forall>f\<in>set V. (strip_root V f \<noteq> Some f) = (strip_root V e \<noteq> Some e)"
    by (rule ballI) (rule uniform)
  have c5: "\<not> endswith e (py ''/'') \<longrightarrow> strip_root V e \<noteq> None"
    by (rule impI) (rule strip_root_keeps_files)
  have c6: "\<forall>p. strip_root V e = Some p \<and> e \<noteq> [] \<longrightarrow> p \<noteq> []"
    using strip_root_nonempty [of V e] by blast
  have c7: "\<forall>info p. (info, p) \<in> set (publishable V zf) \<and> filename info \<noteq> [] \<longrightarrow> p \<noteq> []"
    using paths by blast
  from c1 c2 c3 c4 c5 c6 c7 show ?thesis
    by (intro conjI)
qed

theorem root_stripping_witness:
  "py ''game/main.js'' \<in> set [py ''game/index.html'', py ''game/main.js'']
   \<and> strip_root [py ''game/index.html'', py ''game/main.js''] (py ''game/main.js'') = Some (py ''main.js'')
   \<and> strip_root [py ''game/index.html'', py ''game/main.js''] (py ''game/main.js'')
        \<noteq> Some (py ''game/main.js'')
   \<and> startswith (py ''game/index.html'') (first_segment (py ''game/main.js'') @ py ''/'')
   \<and> strip_root [py ''game/index.html'', py ''game/main.js''] (py ''game/index.html'')
        \<noteq> Some (py ''game/index.html'')
   \<and> strip_root [py ''game/index.html'', py ''readme.txt''] (py ''game/index.html'')
        = Some (py ''game/index.html'')
   \<and> \<not> endswith (py ''game/main.js'') (py ''/'')
   \<and> strip_root [py ''game/index.html'', py ''game/main.js''] (py ''game/main.js'') \<noteq> None
   \<and> (entry ''game/main.js'', py ''main.js'')
        \<in> set (publishable [py ''game/index.html'', py ''game/main.js'']
                   [entry ''game/index.html'', entry ''game/main.js''])
   \<and> filename (entry ''game/main.js'') \<noteq> [] \<and> py ''main.js'' \<noteq> []"
proof -
  let ?V = "[py ''game/index.html'', py ''game/main.js'']"
  let ?W = "[py ''game/index.html'', py ''readme.txt'']"
  have mem: "py ''game/main.js'' \<in> set ?V" "py ''game/index.html'' \<in> set ?V"
    by simp_all
  have memW: "py ''readme.txt'' \<in> set ?W" "py ''game/index.html'' \<in> set ?W"
    by simp_all
  have run: "strip_root ?V (py ''game/main.js'') = Some (py ''main.js'')"
    by code_simp
  have ne: "strip_root ?V (py ''game/main.js'') \<noteq> Some (py ''game/main.js'')"
    by code_simp
  have nosep: "47 \<notin> set (py ''readme.txt'')"
    by code_simp
  have ns: "\<not> endswith (py ''game/main.js'') (py ''/'')"
    and pub: "(entry ''game/main.js'', py ''main.js'')
        \<in> set (publishable ?V [entry ''game/index.html'', entry ''game/main.js''])"
    and fnne: "filename (entry ''game/main.js'') \<noteq> []"
    by code_simp+
  from root_stripping_rule [OF mem(1), where zf = "[entry ''game/index.html'', entry ''game/main.js'']"]
    ns pub fnne
  have kept: "strip_root ?V (py ''game/main.js'') \<noteq> None" and nonempty: "py ''main.js'' \<noteq> []"
    by blast+
  from root_stripping_rule [OF mem(1)] ne
  have all: "\<forall>f\<in>set ?V. startswith f (first_segment (py ''game/main.js'') @ py ''/'')"
    and uni: "\<forall>f\<in>set ?V. (strip_root ?V f \<noteq> Some f) = (strip_root ?V (py ''game/main.js'') \<noteq> Some (py ''game/main.js''))"
    by blast+
  from root_stripping_rule [OF memW(1)] memW(1) nosep
  have "\<forall>f\<in>set ?W. strip_root ?W f = Some f"
    by blast
  with memW(2) have "strip_root ?W (py ''game/index.html'') = Some (py ''game/index.html'')"
    by blast
  moreover from all mem(2)
  have "startswith (py ''game/index.html'') (first_segment (py ''game/main.js'') @ py ''/'')"
    by blast
  moreover from uni mem(2) ne
  have "strip_root ?V (py ''game/index.html'') \<noteq> Some (py ''game/index.html'')"
    by blast
  ultimately show ?thesis
    using mem(1) run ne ns kept pub fnne nonempty by blast
qed

section \<open>Names beyond ASCII\<close>

lemma py_append: "py a @ py b = py (a @ b)" "py a @ py b @ r = py (a @ b) @ r"
  by (simp_all add: py_def)

lemma sanitize_append: "sanitize U (xs @ ys) = sanitize U xs @ sanitize U ys"
  by (simp add: sanitize_def)

lemma sanitize_keeps: "isalnum U c \<Longrightarrow> sanitize U (c # ys) = c # sanitize U ys"
  by (simp add: sanitize_def)

text \<open>Every write the loop attempts has a key that starts with the safe game name.\<close>

lemma upload_loop_keys:
  assumes "upload_loop U w safe V zf n st = (r, st')"
  shows "\<exists>rs. attempted st' = attempted st @ rs \<and> (\<forall>q\<in>set rs. startswith (Key q) (safe @ py ''/''))"
  using assms
proof (induction zf arbitrary: n st)
  case Nil
  then show ?case by simp
next
  case (Cons info zf)
  show ?case
  proof (cases "skipped info \<or> strip_root V (filename info) = None")
    case True
    with Cons.prems have "upload_loop U w safe V zf n st = (r, st')"
      by (simp only: upload_loop_skip)
    then show ?thesis
      by (rule Cons.IH)
  next
    case False
    then obtain p where p: "\<not> skipped info" "strip_root V (filename info) = Some p"
      by auto
    show ?thesis
    proof (cases "payload info")
      case (Inl e)
      with Cons.prems upload_loop_unreadable [OF p Inl, of U w safe zf n st] show ?thesis
        by simp
    next
      case (Inr content)
      show ?thesis
      proof (cases "environ w (py ''R2_BUCKET_NAME'')")
        case None
        with Cons.prems upload_loop_no_bucket [OF p Inr None, of U safe zf n st] show ?thesis
          by auto
      next
        case (Some b)
        let ?rq = "\<lparr>Bucket = b, Key = safe @ py ''/'' @ p, Body = content,
                    ContentType = content_type_of U p\<rparr>"
        have key: "startswith (Key ?rq) (safe @ py ''/'')"
          by (simp add: startswith_def)
        show ?thesis
        proof (cases "put_fault w st ?rq")
          case (Some e)
          from upload_loop_put_fault [OF p Inr \<open>environ w (py ''R2_BUCKET_NAME'') = Some b\<close> Some, of zf n]
            Cons.prems
          have "attempted st' = attempted st @ [?rq]"
            by auto
          with key show ?thesis
            by (intro exI [of _ "[?rq]"]) simp
        next
          case None
          from upload_loop_put_ok [OF p Inr \<open>environ w (py ''R2_BUCKET_NAME'') = Some b\<close> None, of zf n]
            Cons.prems
          have "upload_loop U w safe V zf (n + 1) (wrote st [?rq]) = (r, st')"
            by simp
          from Cons.IH [OF this] obtain rs where
            rs: "attempted st' = attempted (wrote st [?rq]) @ rs"
                "\<forall>q\<in>set rs. startswith (Key q) (safe @ py ''/'')"
            by blast
          from rs(1) have "attempted st' = attempted st @ ?rq # rs"
            by (simp add: wrote_def)
          with rs(2) key show ?thesis
            by (intro exI [of _ "?rq # rs"]) simp
        qed
      qed
    qed
  qed
qed

lemma upload_keys:
  assumes "upload U w rq st = (res, st')" and "headers rq (py ''x-game-name'') = Some g"
  shows "\<exists>rs. attempted st' = attempted st @ rs
              \<and> (\<forall>q\<in>set rs. startswith (Key q) (sanitize U g @ py ''/''))"
proof (cases "validate_request U w rq")
  case (Inl f)
  from upload_rejected [OF this, of st] assms(1) show ?thesis
    by simp
next
  case (Inr t)
  obtain safe V zc where t: "t = (safe, V, zc)"
    by (cases t)
  from validate_request_Inr [of U w rq safe V zc] Inr t assms(2)
  obtain zf where zf: "ZipFile w zc = Inr zf" and safe: "safe = sanitize U g"
    by auto
  obtain r st1 where loop: "upload_loop U w safe V zf 0 st = (r, st1)"
    by (cases "upload_loop U w safe V zf 0 st")
  from upload_after_validation [of U w rq safe V zc zf st] Inr t zf loop assms(1)
  have "st' = st1"
    by (simp split: sum.splits option.splits)
  with upload_loop_keys [OF loop] safe show ?thesis
    by simp
qed

lemma upload_Inr_names:
  assumes "upload U w rq st = (Inr c, st')" and "headers rq (py ''x-game-name'') = Some g"
  shows "gameName c = sanitize U g"
    and "\<exists>base. environ w (py ''PUBLIC_GAME_URL_BASE'') = Some base
                \<and> gameUrl c = game_url base (sanitize U g)"
proof -
  from assms(1) obtain safe V zc where v: "validate_request U w rq = Inr (safe, V, zc)"
    by (cases "validate_request U w rq") (auto simp: upload_def)
  from validate_request_Inr [OF v] assms(2)
  obtain zf where zf: "ZipFile w zc = Inr zf" and safe: "safe = sanitize U g"
    by auto
  obtain r st1 where loop: "upload_loop U w safe V zf 0 st = (r, st1)"
    by (cases "upload_loop U w safe V zf 0 st")
  from upload_after_validation [OF v zf, of st] loop assms(1) safe
  show "gameName c = sanitize U g"
    and "\<exists>base. environ w (py ''PUBLIC_GAME_URL_BASE'') = Some base
                \<and> gameUrl c = game_url base (sanitize U g)"
    by (auto split: sum.splits option.splits)
qed

text \<open>
  C10. A code point beyond ASCII that the character database classifies as a letter or
  a digit is kept by the sanitizer where it stands; so it occurs in the safe game name,
  in the key of every write the run attempts, and in the \<open>gameName\<close> and \<open>gameUrl\<close> of a
  completed upload.
\<close>

theorem unicode_letters_are_kept:
  assumes "128 \<le> c" and "alnum_beyond_ascii U c"
  shows "sanitize U (xs @ c # ys) = sanitize U xs @ c # sanitize U ys
       \<and> c \<in> set (game_url base (sanitize U (xs @ c # ys)))
       \<and> (upload U w rq st = (res, st') \<and> headers rq (py ''x-game-name'') = Some (xs @ c # ys) \<longrightarrow>
            (\<exists>rs. attempted st' = attempted st @ rs \<and> (\<forall>q\<in>set rs. c \<in> set (Key q)))
            \<and> (\<forall>done. res = Inr done \<longrightarrow> c \<in> set (gameName done) \<and> c \<in> set (gameUrl done)))"
proof -
  from assms have alnum: "isalnum U c"
    by (simp add: isalnum_def)
  have keep: "sanitize U (xs @ c # ys) = sanitize U xs @ c # sanitize U ys"
    by (simp add: sanitize_append sanitize_keeps [OF alnum])
  then have mem: "c \<in> set (sanitize U (xs @ c # ys))"
    by simp
  have url: "c \<in> set (game_url b (sanitize U (xs @ c # ys)))" for b
    using mem by (simp add: game_url_def)
  have run: "(\<exists>rs. attempted st' = attempted st @ rs \<and> (\<forall>q\<in>set rs. c \<in> set (Key q)))
            \<and> (\<forall>done. res = Inr done \<longrightarrow> c \<in> set (gameName done) \<and> c \<in> set (gameUrl done))"
    if up: "upload U w rq st = (res, st')" and g: "headers rq (py ''x-game-name'') = Some (xs @ c # ys)"
  proof
    from upload_keys [OF up g] obtain rs where
      rs: "attempted st' = attempted st @ rs"
          "\<forall>q\<in>set rs. startswith (Key q) (sanitize U (xs @ c # ys) @ py ''/'')"
      by blast
    have "c \<in> set (Key q)" if "q \<in> set rs" for q
    proof -
      from rs(2) that have "startswith (Key q) (sanitize U (xs @ c # ys) @ py ''/'')"
        by blast
      then show ?thesis
        by (rule startswith_set) (use mem in simp)
    qed
    with rs(1) show "\<exists>rs. attempted st' = attempted st @ rs \<and> (\<forall>q\<in>set rs. c \<in> set (Key q))"
      by blast
    show "\<forall>done. res = Inr done \<longrightarrow> c \<in> set (gameName done) \<and> c \<in> set (gameUrl done)"
    proof (intro allI impI)
      fix d assume "res = Inr d"
      with up have up': "upload U w rq st = (Inr d, st')"
        by simp
      from upload_Inr_names [OF up' g] mem url
      show "c \<in> set (gameName d) \<and> c \<in> set (gameUrl d)"
        by auto
    qed
  qed
  from keep url run show ?thesis
    by blast
qed

theorem unicode_letters_witness:
  "(128::nat) \<le> 233 \<and> alnum_beyond_ascii two_letters 233
   \<and> sanitize two_letters (py ''caf'' @ 233 # [32, 26085]) = py ''caf'' @ [233, 95, 26085]
   \<and> upload two_letters (demo_world [entry ''index.html''] no_fault)
        (demo_request (py ''caf'' @ 233 # [32, 26085])) empty_store
       = (Inr \<lparr>message = py ''Successfully uploaded game '' @ [39] @ py ''caf'' @ [233, 95, 26085]
                          @ [39] @ py ''.'',
               gameName = py ''caf'' @ [233, 95, 26085],
               gameUrl = py ''https://play.example/caf'' @ [233, 95, 26085] @ py ''/index.html'',
               status = py ''complete''\<rparr>,
          wrote empty_store
            [\<lparr>Bucket = py ''games'', Key = py ''caf'' @ [233, 95, 26085] @ py ''/index.html'',
              Body = [], ContentType = py ''text/html''\<rparr>])
   \<and> 233 \<in> set (py ''https://play.example/caf'' @ [233, 95, 26085] @ py ''/index.html'')
   \<and> 233 \<in> set (py ''caf'' @ [233, 95, 26085] @ py ''/index.html'')"
proof -
  let ?name = "py ''caf'' @ 233 # [32, 26085]"
  let ?w = "demo_world [entry ''index.html''] no_fault"
  let ?done = "\<lparr>message = py ''Successfully uploaded game '' @ [39] @ py ''caf'' @ [233, 95, 26085]
                          @ [39] @ py ''.'',
               gameName = py ''caf'' @ [233, 95, 26085],
               gameUrl = py ''https://play.example/caf'' @ [233, 95, 26085] @ py ''/index.html'',
               status = py ''complete''\<rparr>"
  let ?rq = "\<lparr>Bucket = py ''games'', Key = py ''caf'' @ [233, 95, 26085] @ py ''/index.html'',
              Body = [], ContentType = py ''text/html''\<rparr>"
  have 1: "(128::nat) \<le> 233"
    by simp
  have 2: "alnum_beyond_ascii two_letters 233"
    by (simp add: two_letters_def)
  have hdr: "headers (demo_request ?name) (py ''x-game-name'') = Some (py ''caf'' @ 233 # [32, 26085])"
    by (simp add: demo_request_def py_def)
  have san: "sanitize two_letters ?name = py ''caf'' @ [233, 95, 26085]"
    by (simp add: sanitize_def isalnum_def two_letters_def py_def)
  have lw: "lower two_letters (py ''index.html'') = py ''index.html''"
    by (subst lower_ascii) (simp_all add: py_def)
  have ct: "content_type_of two_letters (py ''index.html'') = py ''text/html''"
    unfolding content_type_of_def Let_def lw by code_simp
  have idx: "has_index two_letters [py ''index.html'']"
    unfolding has_index_def list_ex_iff using lw by (simp add: endswith_def)
  have vf: "valid_files_of [py ''index.html''] = [py ''index.html'']"
    by code_simp
  have sk: "\<not> skipped (entry ''index.html'')"
    and sr: "strip_root [py ''index.html''] (filename (entry ''index.html'')) = Some (py ''index.html'')"
    and pl: "payload (entry ''index.html'') = Inr []"
    and fn: "filename (entry ''index.html'') = py ''index.html''"
    by code_simp+
  have envs: "environ ?w (py ''UPLOAD_PASSWORD'') = Some (py ''pw'')"
    "environ ?w (py ''R2_BUCKET_NAME'') = Some (py ''games'')"
    "environ ?w (py ''PUBLIC_GAME_URL_BASE'') = Some (py ''https://play.example//'')"
    "new_client ?w = Inr ()"
    "ZipFile ?w [] = Inr [entry ''index.html'']"
    by code_simp+
  have url: "rstrip (py ''https://play.example//'') (py ''/'') = py ''https://play.example''"
    by code_simp
  have val: "validate_request two_letters ?w (demo_request ?name)
               = Inr (py ''caf'' @ [233, 95, 26085], [py ''index.html''], [])"
  proof -
    have "validate_zip two_letters ?w [] = Inr [py ''index.html'']"
      by (simp add: validate_zip_def Let_def envs fn vf idx)
    moreover have "init_client ?w = Inr ()"
      by (simp add: init_client_Inr envs)
    moreover have "gameZip (demo_request ?name) = Inr []"
      "headers (demo_request ?name) (py ''x-upload-password'') = Some (py ''pw'')"
      "py ''pw'' \<noteq> []" "?name \<noteq> []"
      by (simp_all add: demo_request_def py_def)
    ultimately show ?thesis
      using validate_request_shell [OF hdr _ _ _ envs(1), of "[]" two_letters] san
      by simp
  qed
  have loop: "upload_files two_letters ?w (py ''caf'' @ [233, 95, 26085]) [py ''index.html''] []
                empty_store = (Inr 1, wrote empty_store [?rq])"
  proof -
    have nf: "put_fault ?w empty_store q = None" for q
      by (simp add: demo_world_def no_fault_def)
    have key: "py ''/'' @ py ''index.html'' = py ''/index.html''"
      by (simp add: py_def)
    from upload_loop_put_ok [where U = two_letters and st = empty_store
        and safe = "py ''caf'' @ [233, 95, 26085]" and zf = "[]" and n = 0,
        OF sk sr pl envs(2) nf]
    show ?thesis
      by (simp add: upload_files_def envs ct key)
  qed
  have run: "upload two_letters ?w (demo_request ?name) empty_store = (Inr ?done, wrote empty_store [?rq])"
    by (simp add: upload_def val loop os_environ_def envs game_url_def url py_append)
  from unicode_letters_are_kept [OF 1 2, of "py ''caf''" "[32, 26085]" _ ?w "demo_request ?name"
      empty_store "Inr ?done" "wrote empty_store [?rq]"] run hdr
  have "233 \<in> set (gameName ?done) \<and> 233 \<in> set (gameUrl ?done)"
    and "\<exists>rs. attempted (wrote empty_store [?rq]) = attempted empty_store @ rs
              \<and> (\<forall>q\<in>set rs. 233 \<in> set (Key q))"
    by blast+
  then have "233 \<in> set (py ''https://play.example/caf'' @ [233, 95, 26085] @ py ''/index.html'')"
    and "233 \<in> set (py ''caf'' @ [233, 95, 26085] @ py ''/index.html'')"
    by (auto simp: wrote_def empty_store_def)
  with 1 2 san run show ?thesis
    by blast
qed

end
